theory Spec2Isabelle
  imports Complex_Main "HOL-Library.Log_Nat"
begin

section \<open>SoftWhisper: segmentation and transcription orchestration\<close>

text \<open>
  A shallow embedding of the transcription core of \<^verbatim>\<open>SoftWhisper-CPU.py\<close>: the time
  utilities (\<^verbatim>\<open>parse_time\<close>, \<^verbatim>\<open>format_timestamp\<close>), the two segment planners inside
  \<^verbatim>\<open>transcribe_file\<close>, the result loop over the worker pool, the subtitle renderers and
  \<^verbatim>\<open>transcribe_segment\<close>.

  Times are Python floats in the source. They are modelled as exact rationals: every
  float is a rational, comparison, floor division and remainder of floats are exact, and
  the rounding of a float difference, quotient or product (in the test of the merging
  loop, in the progress percentage and in the milliseconds of a timestamp) is not
  modelled. Python strings are modelled as \<^typ>\<open>string\<close>, one \<^typ>\<open>char\<close> per code point below
  256 (on that range \<^verbatim>\<open>\d\<close> matches exactly the ten ASCII digits).
\<close>

subsection \<open>Data model\<close>

text \<open>The dictionaries \<^verbatim>\<open>{"speaker": .., "start": .., "end": ..}\<close> built by the planners.\<close>

record segment =
  speaker :: string
  start :: rat
  endt :: rat

text \<open>The entries of \<^verbatim>\<open>all_segments\<close>: a segment with absolute times and its text.\<close>

record transcribed = segment +
  seg_text :: string

text \<open>Exceptions carry their class and their message (\<^verbatim>\<open>str(e)\<close>).\<close>

datatype exn = Exception string | ValueError string | ZeroDivisionError string

fun str_exn :: "exn \<Rightarrow> string" where
  "str_exn (Exception m) = m"
| "str_exn (ValueError m) = m"
| "str_exn (ZeroDivisionError m) = m"

subsection \<open>Python arithmetic on numbers\<close>

text \<open>\<^verbatim>\<open>int(x)\<close> truncates towards zero.\<close>

definition py_int :: "rat \<Rightarrow> int" where
  "py_int x = (if 0 \<le> x then \<lfloor>x\<rfloor> else \<lceil>x\<rceil>)"

text \<open>\<^verbatim>\<open>a // b\<close> and \<^verbatim>\<open>a % b\<close> for a non-zero divisor: floor division, and the remainder
  that goes with it.\<close>

definition py_floordiv :: "rat \<Rightarrow> rat \<Rightarrow> rat" where
  "py_floordiv a b = of_int \<lfloor>a / b\<rfloor>"

definition py_mod :: "rat \<Rightarrow> rat \<Rightarrow> rat" where
  "py_mod a b = a - b * of_int \<lfloor>a / b\<rfloor>"

text \<open>
  The rounding of a float operation: \<open>round_double x\<close> is the double nearest to \<open>x\<close>, ties
  going to the even significand (53 bits, exponents down to that of the subnormal
  numbers; the overflow to infinity is not modelled). \<open>ilog2 a\<close> is the exponent of the
  largest power of two that is at most a positive \<open>a\<close>.
\<close>

definition ilog2 :: "rat \<Rightarrow> int" where
  "ilog2 a = (if 1 \<le> a then bitlen \<lfloor>a\<rfloor> - 1 else - bitlen (\<lceil>1 / a\<rceil> - 1))"

definition round_half_even :: "rat \<Rightarrow> int" where
  "round_half_even m =
     (let f = \<lfloor>m\<rfloor>; d = m - of_int f
      in if d < 1 / 2 then f else if 1 / 2 < d then f + 1 else if even f then f else f + 1)"

definition round_double :: "rat \<Rightarrow> rat" where
  "round_double x =
     (if x = 0 then 0
      else
        let a = \<bar>x\<bar>;
            q = max (ilog2 a - 52) (- 1074);
            r = round_half_even (a / 2 powi q)
        in sgn x * of_int r * 2 powi q)"

subsection \<open>Fixed-grid planning\<close>

text \<open>
  The \<^verbatim>\<open>else\<close> branch of the planning step of \<^verbatim>\<open>transcribe_file\<close>: \<^verbatim>\<open>num_full_chunks\<close>
  windows of \<^verbatim>\<open>MAX_CHUNK_DURATION\<close> seconds, then the remainder when it is positive. The
  chunk duration is a parameter here; the source reads the global constant 60, so that
  the division by zero is a branch of the model only.
\<close>

definition MAX_CHUNK_DURATION :: rat where
  "MAX_CHUNK_DURATION = 60"

definition full_chunk :: "rat \<Rightarrow> nat \<Rightarrow> segment" where
  "full_chunk m i =
     \<lparr>speaker = ''Speaker 1'', start = of_nat i * m, endt = (of_nat i + 1) * m\<rparr>"

definition fixed_grid :: "rat \<Rightarrow> rat \<Rightarrow> exn + segment list" where
  "fixed_grid m trimmed_duration =
     (if m = 0 then Inl (ZeroDivisionError ''float floor division by zero'')
      else
        let num_full_chunks = py_int (py_floordiv trimmed_duration m);
            remainder = py_mod trimmed_duration m;
            full = map (full_chunk m) [0..<nat num_full_chunks]
        in Inr (if 0 < remainder
                then full @ [\<lparr>speaker = ''Speaker 1'',
                                start = of_int num_full_chunks * m,
                                endt = trimmed_duration\<rparr>]
                else full))"

subsection \<open>Tilings\<close>

text \<open>
  \<open>tiles a b segs\<close>: the half-open windows of \<open>segs\<close> are non-empty, the first starts at
  \<open>a\<close>, each next one starts where the previous one ends, and the last ends at \<open>b\<close>.
\<close>

fun tiles :: "rat \<Rightarrow> rat \<Rightarrow> segment list \<Rightarrow> bool" where
  "tiles a b [] = (a = b)"
| "tiles a b (s # ss) = (start s = a \<and> start s < endt s \<and> tiles (endt s) b ss)"

text \<open>The number of windows of a plan that contain the instant \<open>t\<close>.\<close>

definition covering :: "segment list \<Rightarrow> rat \<Rightarrow> nat" where
  "covering segs t = length (filter (\<lambda>s. start s \<le> t \<and> t < endt s) segs)"

subsection \<open>Python strings\<close>

text \<open>\<^verbatim>\<open>str(n)\<close> of a natural number, in decimal.\<close>

fun str_nat :: "nat \<Rightarrow> string" where
  "str_nat n =
     (if n < 10 then [''0123456789'' ! n]
      else str_nat (n div 10) @ [''0123456789'' ! (n mod 10)])"

declare str_nat.simps [simp del]

text \<open>The format specification \<^verbatim>\<open>{i:0w}\<close> of an integer: the sign, then zeros up to the
  width \<open>w\<close>, then the digits.\<close>

definition fmt_zero :: "nat \<Rightarrow> int \<Rightarrow> string" where
  "fmt_zero w i =
     (let sign = (if i < 0 then ''-'' else '''');
          ds = str_nat (nat \<bar>i\<bar>)
      in sign @ replicate (w - length sign - length ds) CHR ''0'' @ ds)"

definition newline :: string where
  "newline = [CHR 0x0A]"

text \<open>\<^verbatim>\<open>str.isspace\<close> on the code points below 256, and \<^verbatim>\<open>str.strip()\<close>.\<close>

definition is_space :: "char \<Rightarrow> bool" where
  "is_space c =
     (let n = (of_char c :: nat)
      in (9 \<le> n \<and> n \<le> 13) \<or> (28 \<le> n \<and> n \<le> 32) \<or> n = 133 \<or> n = 160)"

definition strip :: "string \<Rightarrow> string" where
  "strip s = rev (dropWhile is_space (rev (dropWhile is_space s)))"

text \<open>\<^verbatim>\<open>sep.join(xs)\<close>.\<close>

fun join :: "string \<Rightarrow> string list \<Rightarrow> string" where
  "join sep [] = []"
| "join sep [x] = x"
| "join sep (x # y # ys) = x @ sep @ join sep (y # ys)"

subsection \<open>Time utilities\<close>

text \<open>
  \<^verbatim>\<open>parse_time\<close> matches \<^verbatim>\<open>^(\d{1,2}):([0-5]?\d):([0-5]?\d)$\<close> with \<^verbatim>\<open>re.match\<close>. The matcher
  is a backtracking one, as Python's: \<open>greedy p lo hi k\<close> is a greedy repetition
  \<^verbatim>\<open>{lo,hi}\<close> of the character class \<open>p\<close>. It tries the longest run first, hands the
  consumed text and the rest to the continuation \<open>k\<close>, and gives characters back one at a
  time while the continuation fails.
\<close>

fun greedy :: "(char \<Rightarrow> bool) \<Rightarrow> nat \<Rightarrow> nat \<Rightarrow> (string \<Rightarrow> string \<Rightarrow> 'a option) \<Rightarrow> string \<Rightarrow> 'a option" where
  "greedy p lo 0 k s = (if lo = 0 then k [] s else None)"
| "greedy p lo (Suc n) k s =
     (case (if Suc n \<le> length s \<and> list_all p (take (Suc n) s)
            then k (take (Suc n) s) (drop (Suc n) s) else None) of
        Some r \<Rightarrow> Some r
      | None \<Rightarrow> if Suc n \<le> lo then None else greedy p lo n k s)"

text \<open>\<^verbatim>\<open>\d\<close>, \<^verbatim>\<open>[0-5]\<close> and a literal character.\<close>

definition is_digit :: "char \<Rightarrow> bool" where
  "is_digit c = (48 \<le> (of_char c :: nat) \<and> (of_char c :: nat) \<le> 57)"

definition in_0_5 :: "char \<Rightarrow> bool" where
  "in_0_5 c = (48 \<le> (of_char c :: nat) \<and> (of_char c :: nat) \<le> 53)"

definition lit :: "char \<Rightarrow> (string \<Rightarrow> 'a option) \<Rightarrow> string \<Rightarrow> 'a option" where
  "lit c k s = greedy (\<lambda>x. x = c) 1 1 (\<lambda>_. k) s"

text \<open>\<^verbatim>\<open>$\<close> matches at the end of the string and just before a newline that ends it.\<close>

definition dollar :: "'a \<Rightarrow> string \<Rightarrow> 'a option" where
  "dollar r s = (if s = [] \<or> s = newline then Some r else None)"

text \<open>The groups of the match, or \<open>None\<close> when \<^verbatim>\<open>re.match\<close> returns \<^verbatim>\<open>None\<close>.\<close>

definition time_match :: "string \<Rightarrow> (string \<times> string \<times> string) option" where
  "time_match time_str =
     greedy is_digit 1 2 (\<lambda>g1.
       lit CHR '':'' (
         greedy in_0_5 0 1 (\<lambda>a.
           greedy is_digit 1 1 (\<lambda>b.
             lit CHR '':'' (
               greedy in_0_5 0 1 (\<lambda>c.
                 greedy is_digit 1 1 (\<lambda>d.
                   dollar (g1, a @ b, c @ d)))))))) time_str"

text \<open>\<^verbatim>\<open>int(s)\<close> on a string of decimal digits, which is all \<^verbatim>\<open>parse_time\<close> passes to it.\<close>

definition digit_val :: "char \<Rightarrow> int" where
  "digit_val c = int (of_char c) - 48"

definition int_digits :: "string \<Rightarrow> int" where
  "int_digits ds = foldl (\<lambda>a c. 10 * a + digit_val c) 0 ds"

definition parse_time :: "string \<Rightarrow> exn + int" where
  "parse_time time_str =
     (case time_match time_str of
        None \<Rightarrow> Inl (ValueError ''Time must be in [hh:mm:ss] format.'')
      | Some (hours, minutes, seconds) \<Rightarrow>
          Inr (int_digits hours * 3600 + int_digits minutes * 60 + int_digits seconds))"

text \<open>\<^verbatim>\<open>format_timestamp\<close>: hours, minutes, seconds and truncated milliseconds.\<close>

definition format_timestamp :: "rat \<Rightarrow> string" where
  "format_timestamp seconds =
     (let hours = py_int (py_floordiv seconds 3600);
          minutes = py_int (py_floordiv (py_mod seconds 3600) 60);
          secs = py_int (py_mod seconds 60);
          millis = py_int ((seconds - of_int (py_int seconds)) * 1000)
      in fmt_zero 2 hours @ '':'' @ fmt_zero 2 minutes @ '':'' @ fmt_zero 2 secs @ '','' @
         fmt_zero 3 millis)"

subsection \<open>Diarization-driven planning\<close>

text \<open>One item of \<^verbatim>\<open>diarization.itertracks(yield_label=True)\<close>: the raw speaker label and
  the turn's start and end.\<close>

record track =
  raw_speaker :: string
  turn_start :: rat
  turn_end :: rat

text \<open>The loop that parses the diarization result: raw labels are renamed
  \<^verbatim>\<open>Speaker 1\<close>, \<^verbatim>\<open>Speaker 2\<close>, ... in the order of first appearance.\<close>

fun parse_tracks ::
  "(string \<rightharpoonup> string) \<Rightarrow> nat \<Rightarrow> segment list \<Rightarrow> track list \<Rightarrow> segment list" where
  "parse_tracks speaker_map speaker_count speaker_segments [] = speaker_segments"
| "parse_tracks speaker_map speaker_count speaker_segments (t # ts) =
     (case speaker_map (raw_speaker t) of
        None \<Rightarrow>
          parse_tracks
            (speaker_map(raw_speaker t \<mapsto> ''Speaker '' @ str_nat speaker_count))
            (speaker_count + 1)
            (speaker_segments @
               [\<lparr>speaker = ''Speaker '' @ str_nat speaker_count,
                 start = turn_start t, endt = turn_end t\<rparr>])
            ts
      | Some label \<Rightarrow>
          parse_tracks speaker_map speaker_count
            (speaker_segments @
               [\<lparr>speaker = label, start = turn_start t, endt = turn_end t\<rparr>])
            ts)"

text \<open>The merging loop: \<open>combined_segments\<close> and \<open>current_chunk\<close> are its two variables, and
  the chunk still open when the turns run out is appended last. The potential duration
  is a float difference, so it is rounded.\<close>

fun combine_loop :: "rat \<Rightarrow> segment list \<Rightarrow> segment \<Rightarrow> segment list \<Rightarrow> segment list" where
  "combine_loop m combined_segments current_chunk [] = combined_segments @ [current_chunk]"
| "combine_loop m combined_segments current_chunk (segment # rest) =
     (let potential_end = endt segment;
          potential_duration = round_double (potential_end - start current_chunk)
      in if potential_duration \<le> m
         then combine_loop m combined_segments (current_chunk\<lparr>endt := potential_end\<rparr>) rest
         else combine_loop m (combined_segments @ [current_chunk])
                \<lparr>speaker = speaker segment, start = start segment, endt = endt segment\<rparr> rest)"

definition combine_segments :: "rat \<Rightarrow> segment list \<Rightarrow> exn + segment list" where
  "combine_segments m speaker_segments =
     (case speaker_segments of
        [] \<Rightarrow> Inl (ValueError ''No speaker segments found during diarization.'')
      | first # rest \<Rightarrow>
          Inr (combine_loop m []
                 \<lparr>speaker = speaker first, start = start first, endt = endt first\<rparr> rest))"

definition diarization_plan :: "rat \<Rightarrow> track list \<Rightarrow> exn + segment list" where
  "diarization_plan m tracks = combine_segments m (parse_tracks Map.empty 1 [] tracks)"

subsection \<open>Subtitle rendering\<close>

text \<open>\<^verbatim>\<open>generate_srt_text_with_speakers\<close>: the string shown in the transcription box.\<close>

definition generate_srt_text_with_speakers :: "transcribed list \<Rightarrow> string" where
  "generate_srt_text_with_speakers segments =
     join newline
       (map (\<lambda>(i, segment).
               str_nat i @ newline @
               format_timestamp (start segment) @ '' --> '' @ format_timestamp (endt segment) @
               newline @
               speaker segment @ '': '' @ strip (seg_text segment) @ newline)
          (enumerate 1 segments))"


subsection \<open>The orchestrator\<close>

text \<open>
  \<^verbatim>\<open>transcribe_file\<close> from the planning step on (the time range has been validated and the
  trimmed audio exported). What the run reads from outside is a record of inputs: the
  diarization result, the value of the stop event at each place where it is read, and the
  futures in the order in which \<^verbatim>\<open>as_completed\<close> yields them, each with the index of its
  segment in the plan, the value read from the stop event at that iteration, and what
  \<^verbatim>\<open>future.result()\<close> gives (a text or a raised exception).

  The lines of the console queue are kept as values, not formatted.
\<close>

datatype console_msg =
    CombinedCount nat
  | SegmentCount nat
  | ErrorTranscribing string
  | ErrorExtracting string
  | ErrorExporting string
  | Exported rat rat string
  | Transcribed rat rat string
  | Deleted string

record completion =
  seg_index :: nat
  stop_seen :: bool
  outcome :: "exn + string"

record env =
  speaker_id :: bool
  diarization :: "exn + track list"
  stop_after_diarization :: bool
  stop_before_transcription :: bool
  num_threads :: nat
  completions :: "completion list"
  stop_after_pool :: bool
  srt :: bool

record run =
  progress_queue :: "(int \<times> string) list"
  console_queue :: "console_msg list"
  displayed :: "string option"
  saved_srt :: "transcribed list option"
  error_box :: "string option"
  stop_event_cleared :: bool
  temp_file_exists :: bool

definition initial_run :: run where
  "initial_run =
     \<lparr>progress_queue = [], console_queue = [], displayed = None, saved_srt = None,
      error_box = None, stop_event_cleared = False, temp_file_exists = True\<rparr>"

definition put_progress :: "int \<times> string \<Rightarrow> run \<Rightarrow> run" where
  "put_progress ev r = r\<lparr>progress_queue := progress_queue r @ [ev]\<rparr>"

definition put_console :: "console_msg \<Rightarrow> run \<Rightarrow> run" where
  "put_console msg r = r\<lparr>console_queue := console_queue r @ [msg]\<rparr>"

definition stopped_by_user :: string where
  "stopped_by_user = ''Transcription stopped by user.''"

text \<open>The planning step, with the stop check that follows the diarization.\<close>

definition plan :: "env \<Rightarrow> rat \<Rightarrow> rat \<Rightarrow> run \<Rightarrow> run \<times> (exn + segment list)" where
  "plan e m trimmed_duration r =
     (if speaker_id e then
        let r1 = put_progress (10, ''Performing speaker diarization...'') r
        in (case diarization e of
              Inl x \<Rightarrow> (r1, Inl x)
            | Inr tracks \<Rightarrow>
                if stop_after_diarization e then (r1, Inl (Exception stopped_by_user))
                else (case diarization_plan m tracks of
                        Inl x \<Rightarrow> (r1, Inl x)
                      | Inr speaker_segments \<Rightarrow>
                          (put_console (CombinedCount (length speaker_segments)) r1,
                           Inr speaker_segments)))
      else
        let r1 = put_progress (10, ''Dividing audio into chunks...'') r
        in (case fixed_grid m trimmed_duration of
              Inl x \<Rightarrow> (r1, Inl x)
            | Inr speaker_segments \<Rightarrow>
                (put_console (SegmentCount (length speaker_segments)) r1,
                 Inr speaker_segments)))"

text \<open>The body of the loop over \<^verbatim>\<open>as_completed\<close>, after its stop check: the result is
  appended when it is a non-empty text, an exception is logged, and the progress is put.\<close>

definition handle_completion ::
  "segment list \<Rightarrow> int \<Rightarrow> completion \<Rightarrow> string \<times> transcribed list \<times> run
     \<Rightarrow> string \<times> transcribed list \<times> run" where
  "handle_completion speaker_segments start_sec c st =
     (case st of (transcription, all_segments, r) \<Rightarrow>
        let segment = speaker_segments ! seg_index c;
            (transcription', all_segments', r') =
              (case outcome c of
                 Inr segment_text \<Rightarrow>
                   if segment_text \<noteq> []
                   then (transcription @ speaker segment @ '': '' @ segment_text @ newline,
                         all_segments @
                           [\<lparr>speaker = speaker segment,
                             start = start segment + of_int start_sec,
                             endt = endt segment + of_int start_sec,
                             seg_text = segment_text\<rparr>],
                         r)
                   else (transcription, all_segments, r)
               | Inl x \<Rightarrow>
                   (transcription, all_segments, put_console (ErrorTranscribing (str_exn x)) r));
            completed = length all_segments';
            progress_percentage =
              py_int (20 + 80 * of_nat completed / of_nat (length speaker_segments))
        in (transcription', all_segments',
            put_progress
              (progress_percentage,
               ''Transcribed '' @ str_nat completed @ '' of '' @
               str_nat (length speaker_segments) @ '' segments...'') r'))"

fun result_loop ::
  "segment list \<Rightarrow> int \<Rightarrow> completion list \<Rightarrow> string \<times> transcribed list \<times> run
     \<Rightarrow> (string \<times> transcribed list \<times> run) \<times> exn option" where
  "result_loop speaker_segments start_sec [] st = (st, None)"
| "result_loop speaker_segments start_sec (c # cs) st =
     (if stop_seen c then (st, Some (Exception stopped_by_user))
      else result_loop speaker_segments start_sec cs
             (handle_completion speaker_segments start_sec c st))"

text \<open>The \<^verbatim>\<open>try\<close> block: the final state and the exception that left it, if any.\<close>

definition transcribe_body :: "env \<Rightarrow> rat \<Rightarrow> int \<Rightarrow> rat \<Rightarrow> run \<Rightarrow> run \<times> exn option" where
  "transcribe_body e m start_sec trimmed_duration r =
     (case plan e m trimmed_duration r of
        (r1, Inl x) \<Rightarrow> (r1, Some x)
      | (r1, Inr speaker_segments) \<Rightarrow>
          if stop_before_transcription e then (r1, Some (Exception stopped_by_user))
          else
            let r2 = put_progress
                       (20, ''Transcribing '' @ str_nat (length speaker_segments) @
                            '' segments with '' @ str_nat (num_threads e) @ '' threads...'') r1
            in (case result_loop speaker_segments start_sec (completions e) ([], [], r2) of
                  ((transcription, all_segments, r3), Some x) \<Rightarrow> (r3, Some x)
                | ((transcription, all_segments, r3), None) \<Rightarrow>
                    if stop_after_pool e
                    then ((put_progress (0, ''Transcription stopped.'') r3)
                            \<lparr>stop_event_cleared := True\<rparr>, None)
                    else
                      let r4 = put_progress (100, ''Transcription completed.'') r3
                      in if srt e
                         then (r4\<lparr>displayed :=
                                    Some (generate_srt_text_with_speakers all_segments),
                                  saved_srt := Some all_segments\<rparr>, None)
                         else (r4\<lparr>displayed := Some (strip transcription)\<rparr>, None)))"

text \<open>The \<^verbatim>\<open>except\<close> and \<^verbatim>\<open>finally\<close> clauses around it.\<close>

definition transcribe_file :: "env \<Rightarrow> int \<Rightarrow> rat \<Rightarrow> run" where
  "transcribe_file e start_sec trimmed_duration =
     (case transcribe_body e MAX_CHUNK_DURATION start_sec trimmed_duration initial_run of
        (r, raised) \<Rightarrow>
          let r' = (case raised of
                      None \<Rightarrow> r
                    | Some x \<Rightarrow>
                        if str_exn x = stopped_by_user
                        then put_progress (0, ''Transcription stopped.'') r
                        else (put_progress (0, ''Error during transcription: '' @ str_exn x) r)
                               \<lparr>error_box :=
                                  Some (''Failed to transcribe the audio/video file.'' @
                                        newline @ ''Error: '' @ str_exn x)\<rparr>)
          in r'\<lparr>temp_file_exists := False\<rparr>)"

subsection \<open>The segment transcriber\<close>

text \<open>
  One call of \<^verbatim>\<open>transcribe_segment\<close>. What it reads from outside: the stop event at entry,
  whether slicing the trimmed audio raises, the name of the temporary file that
  \<^verbatim>\<open>NamedTemporaryFile(suffix=".wav", delete=False)\<close> creates, whether the export raises, and
  what the model returns (the \<^verbatim>\<open>"text"\<close> entry of the result, if any) or raises. The
  world is the set of existing files and the console queue.
\<close>

record seg_env =
  stop_at_entry :: bool
  extraction_error :: "exn option"
  seg_file_name :: string
  export_error :: "exn option"
  inference :: "exn + string option"

record world =
  files :: "string set"
  console :: "console_msg list"

definition log :: "console_msg \<Rightarrow> world \<Rightarrow> world" where
  "log msg w = w\<lparr>console := console w @ [msg]\<rparr>"

definition transcribe_segment :: "seg_env \<Rightarrow> segment \<Rightarrow> world \<Rightarrow> world \<times> (exn + string)" where
  "transcribe_segment e segment w =
     (if stop_at_entry e then (w, Inl (Exception stopped_by_user))
      else
        let segment_start = start segment;
            segment_end = endt segment
        in (case extraction_error e of
              Some x \<Rightarrow> (log (ErrorExtracting (str_exn x)) w, Inr [])
            | None \<Rightarrow>
               let w1 = w\<lparr>files := insert (seg_file_name e) (files w)\<rparr>
               in (case export_error e of
                    Some x \<Rightarrow> (log (ErrorExporting (str_exn x)) w1, Inr [])
                  | None \<Rightarrow>
                      let seg_file_path = seg_file_name e;
                          w2 = log (Exported segment_start segment_end seg_file_path) w1;
                          (w3, segment_text) =
                            (case inference e of
                               Inr result \<Rightarrow>
                                 let segment_text =
                                       strip (case result of None \<Rightarrow> [] | Some t \<Rightarrow> t)
                                 in (log (Transcribed segment_start segment_end segment_text) w2,
                                     segment_text)
                             | Inl x \<Rightarrow> (log (ErrorTranscribing (str_exn x)) w2, []));
                          w4 = (if seg_file_path \<in> files w3
                                then log (Deleted seg_file_path)
                                       (w3\<lparr>files := files w3 - {seg_file_path}\<rparr>)
                                else w3)
                      in (w4, Inr segment_text))))"

subsection \<open>The worker pool and the model lock\<close>

text \<open>
  The tasks of the pool as an interleaving of steps. Each task runs \<^verbatim>\<open>transcribe_segment\<close>
  once; its program counter says where it is: not yet started by a worker, at the entry
  check, slicing, exporting, waiting at \<^verbatim>\<open>with self.model_lock\<close>, inside the
  \<^verbatim>\<open>with\<close> block (the call of \<^verbatim>\<open>self.model.transcribe\<close>), in the \<^verbatim>\<open>finally\<close> clause, or
  returned. \<open>locked\<close> is the state of the one lock created in \<^verbatim>\<open>__init__\<close>.
\<close>

datatype pc = Queued | Entry | Extract | Export | Acquire | Infer | Cleanup | Returned

record pool =
  pcs :: "pc list"
  locked :: bool

text \<open>The tasks that occupy a worker.\<close>

definition running :: "pc list \<Rightarrow> nat" where
  "running ps = length (filter (\<lambda>p. p \<noteq> Queued \<and> p \<noteq> Returned) ps)"

text \<open>The steps a task takes without the lock: each check or \<^verbatim>\<open>try\<close> either goes on or
  leaves the function.\<close>

fun local_next :: "pc \<Rightarrow> pc list" where
  "local_next Entry = [Extract, Returned]"
| "local_next Extract = [Export, Returned]"
| "local_next Export = [Acquire, Returned]"
| "local_next Cleanup = [Returned]"
| "local_next _ = []"

text \<open>One step of a pool of \<open>K\<close> workers: a free worker starts a queued task, a task takes
  a local step, a task acquires the lock when it is free, or the \<^verbatim>\<open>with\<close> block is left (the
  model returned or raised) and the lock is released.\<close>

inductive step :: "nat \<Rightarrow> pool \<Rightarrow> pool \<Rightarrow> bool" for K :: nat where
  start_task:
    "i < length (pcs s) \<Longrightarrow> pcs s ! i = Queued \<Longrightarrow> running (pcs s) < K \<Longrightarrow>
     step K s (s\<lparr>pcs := (pcs s)[i := Entry]\<rparr>)"
| local_step:
    "i < length (pcs s) \<Longrightarrow> p \<in> set (local_next (pcs s ! i)) \<Longrightarrow>
     step K s (s\<lparr>pcs := (pcs s)[i := p]\<rparr>)"
| acquire_lock:
    "i < length (pcs s) \<Longrightarrow> pcs s ! i = Acquire \<Longrightarrow> \<not> locked s \<Longrightarrow>
     step K s (s\<lparr>pcs := (pcs s)[i := Infer], locked := True\<rparr>)"
| release_lock:
    "i < length (pcs s) \<Longrightarrow> pcs s ! i = Infer \<Longrightarrow>
     step K s (s\<lparr>pcs := (pcs s)[i := Cleanup], locked := False\<rparr>)"

inductive reachable :: "nat \<Rightarrow> nat \<Rightarrow> pool \<Rightarrow> bool" for K :: nat and N :: nat where
  submitted: "reachable K N \<lparr>pcs = replicate N Queued, locked = False\<rparr>"
| stepped: "reachable K N s \<Longrightarrow> step K s s' \<Longrightarrow> reachable K N s'"

text \<open>The number of model calls in progress.\<close>

definition inferring :: "pool \<Rightarrow> nat" where
  "inferring s = length (filter (\<lambda>p. p = Infer) (pcs s))"

subsection \<open>Completion order\<close>

text \<open>
  What the result loop is compared with: the completed tasks that returned a non-empty
  text, each as the entry built from its segment, in the order of completion; and the
  transcript lines of a list of entries.
\<close>

definition in_completion_order :: "segment list \<Rightarrow> int \<Rightarrow> completion list \<Rightarrow> transcribed list" where
  "in_completion_order speaker_segments start_sec cs =
     concat (map (\<lambda>c. case outcome c of
                         Inr segment_text \<Rightarrow>
                           if segment_text \<noteq> []
                           then [\<lparr>speaker = speaker (speaker_segments ! seg_index c),
                                   start = start (speaker_segments ! seg_index c) + of_int start_sec,
                                   endt = endt (speaker_segments ! seg_index c) + of_int start_sec,
                                   seg_text = segment_text\<rparr>]
                           else []
                       | Inl x \<Rightarrow> []) cs)"

definition transcript_lines :: "transcribed list \<Rightarrow> string" where
  "transcript_lines entries =
     concat (map (\<lambda>s. speaker s @ '': '' @ seg_text s @ newline) entries)"

subsection \<open>The subtitle entry of the specification\<close>


subsection \<open>The shape of a time string\<close>


section \<open>Verification\<close>

subsection \<open>Tilings cover every instant exactly once\<close>

lemma tiles_le: "tiles a b segs \<Longrightarrow> a \<le> b"
  by (induction segs arbitrary: a) force+

lemma tiles_append: "tiles a b xs \<Longrightarrow> tiles b c ys \<Longrightarrow> tiles a c (xs @ ys)"
  by (induction xs arbitrary: a) auto

lemma covering_Cons:
  "covering (s # ss) t = (if start s \<le> t \<and> t < endt s then 1 else 0) + covering ss t"
  by (simp add: covering_def)

lemma tiles_covering_out: "tiles a b segs \<Longrightarrow> t < a \<or> b \<le> t \<Longrightarrow> covering segs t = 0"
proof (induction segs arbitrary: a)
  case Nil
  then show ?case by (simp add: covering_def)
next
  case (Cons s ss)
  from Cons.prems have st: "start s = a" "a < endt s" and rest: "tiles (endt s) b ss"
    by auto
  from rest have "endt s \<le> b" by (rule tiles_le)
  with Cons.prems(2) st have out: "t < endt s \<or> b \<le> t" and notin: "\<not> (start s \<le> t \<and> t < endt s)"
    by auto
  from Cons.IH [OF rest out] notin show ?case
    by (simp add: covering_Cons)
qed

lemma tiles_covering_in: "tiles a b segs \<Longrightarrow> a \<le> t \<Longrightarrow> t < b \<Longrightarrow> covering segs t = 1"
proof (induction segs arbitrary: a)
  case Nil
  then show ?case by simp
next
  case (Cons s ss)
  from Cons.prems have st: "start s = a" "a < endt s" and rest: "tiles (endt s) b ss"
    by auto
  show ?case
  proof (cases "t < endt s")
    case True
    with rest have "covering ss t = 0" by (auto intro: tiles_covering_out)
    with True st Cons.prems(2) show ?thesis by (simp add: covering_Cons)
  next
    case False
    then have "endt s \<le> t" by simp
    from Cons.IH [OF rest this Cons.prems(3)] False show ?thesis
      by (simp add: covering_Cons)
  qed
qed

lemma tiles_last: "tiles a b segs \<Longrightarrow> segs \<noteq> [] \<Longrightarrow> endt (last segs) = b"
  by (induction segs arbitrary: a) force+

lemma tiles_full: "0 < m \<Longrightarrow> tiles 0 (of_nat n * m) (map (full_chunk m) [0..<n])"
proof (induction n)
  case 0
  then show ?case by simp
next
  case (Suc n)
  have "tiles (of_nat n * m) (of_nat (Suc n) * m) [full_chunk m n]"
    using Suc.prems by (simp add: full_chunk_def algebra_simps)
  with Suc show ?case by (simp add: tiles_append)
qed

lemma fixed_grid_125: "fixed_grid 60 125 =
     Inr [\<lparr>speaker = ''Speaker 1'', start = 0, endt = 60\<rparr>,
          \<lparr>speaker = ''Speaker 1'', start = 60, endt = 120\<rparr>,
          \<lparr>speaker = ''Speaker 1'', start = 120, endt = 125\<rparr>]"
  by code_simp

lemma py_int_of_int: "py_int (of_int n) = n"
  by (simp add: py_int_def)

lemma fixed_grid_unfold:
  assumes "m \<noteq> 0"
  shows "fixed_grid m d =
     Inr (map (full_chunk m) [0..<nat \<lfloor>d / m\<rfloor>] @
          (if of_int \<lfloor>d / m\<rfloor> * m < d
           then [\<lparr>speaker = ''Speaker 1'', start = of_int \<lfloor>d / m\<rfloor> * m, endt = d\<rparr>]
           else []))"
  using assms
  by (simp add: fixed_grid_def py_floordiv_def py_mod_def py_int_of_int Let_def mult.commute)

lemma floor_bounds:
  assumes "0 < (m::rat)"
  shows "of_int \<lfloor>d / m\<rfloor> * m \<le> d" and "d - of_int \<lfloor>d / m\<rfloor> * m < m"
proof -
  have "of_int \<lfloor>d / m\<rfloor> \<le> d / m" by (rule of_int_floor_le)
  with assms show "of_int \<lfloor>d / m\<rfloor> * m \<le> d"
    by (simp only: pos_le_divide_eq)
  have "d / m < of_int \<lfloor>d / m\<rfloor> + 1" by linarith
  with assms have "d < (of_int \<lfloor>d / m\<rfloor> + 1) * m"
    by (simp add: pos_divide_less_eq)
  then show "d - of_int \<lfloor>d / m\<rfloor> * m < m"
    by (simp add: algebra_simps)
qed

text \<open>
  Claim C5. For every positive total duration and positive chunk duration, fixed-grid
  planning returns \<open>\<lfloor>d / m\<rfloor>\<close> windows of length \<open>m\<close> followed, when the remainder is
  positive, by one window shorter than \<open>m\<close>; the windows tile \<open>[0, d)\<close> (each instant of
  \<open>[0, d)\<close> lies in exactly one window and no other instant lies in any), the last window
  ends at \<open>d\<close>, and 125 seconds with chunks of 60 give \<open>[0,60) [60,120) [120,125)\<close>.
\<close>

theorem fixed_grid_partition:
  assumes "0 < d" and "0 < m"
  shows "(\<exists>segs. fixed_grid m d = Inr segs \<and>
            segs = map (full_chunk m) [0..<nat \<lfloor>d / m\<rfloor>] @
                   (if of_int \<lfloor>d / m\<rfloor> * m < d
                    then [\<lparr>speaker = ''Speaker 1'', start = of_int \<lfloor>d / m\<rfloor> * m, endt = d\<rparr>]
                    else []) \<and>
            d - of_int \<lfloor>d / m\<rfloor> * m < m \<and>
            tiles 0 d segs \<and> endt (last segs) = d \<and>
            (\<forall>t. covering segs t = (if 0 \<le> t \<and> t < d then 1 else 0))) \<and>
         fixed_grid 60 125 =
           Inr [\<lparr>speaker = ''Speaker 1'', start = 0, endt = 60\<rparr>,
                \<lparr>speaker = ''Speaker 1'', start = 60, endt = 120\<rparr>,
                \<lparr>speaker = ''Speaker 1'', start = 120, endt = 125\<rparr>]"
proof -
  define n where "n = \<lfloor>d / m\<rfloor>"
  define segs where "segs = map (full_chunk m) [0..<nat n] @
     (if of_int n * m < d then [\<lparr>speaker = ''Speaker 1'', start = of_int n * m, endt = d\<rparr>] else [])"
  from assms have "0 \<le> d / m" by simp
  then have n0: "0 \<le> n" unfolding n_def by simp
  then have nn: "(of_nat (nat n) :: rat) = of_int n"
    by (metis of_nat_nat)
  have le: "of_int n * m \<le> d" and lt: "d - of_int n * m < m"
    unfolding n_def using floor_bounds [OF assms(2)] by auto
  have eq: "fixed_grid m d = Inr segs"
    unfolding segs_def n_def using assms(2) by (simp add: fixed_grid_unfold)
  have full: "tiles 0 (of_int n * m) (map (full_chunk m) [0..<nat n])"
    using tiles_full [OF assms(2), of "nat n"] nn by simp
  have rest: "tiles (of_int n * m) d
     (if of_int n * m < d then [\<lparr>speaker = ''Speaker 1'', start = of_int n * m, endt = d\<rparr>] else [])"
    using le by simp
  have t: "tiles 0 d segs"
    unfolding segs_def using full rest by (rule tiles_append)
  from t assms(1) have ne: "segs \<noteq> []" by auto
  have l: "endt (last segs) = d"
    using t ne by (rule tiles_last)
  have c: "covering segs t = (if 0 \<le> t \<and> t < d then 1 else 0)" for t
    using tiles_covering_in [OF t, of t] tiles_covering_out [OF t, of t] by auto
  have ex: "fixed_grid 60 125 =
           Inr [\<lparr>speaker = ''Speaker 1'', start = 0, endt = 60\<rparr>,
                \<lparr>speaker = ''Speaker 1'', start = 60, endt = 120\<rparr>,
                \<lparr>speaker = ''Speaker 1'', start = 120, endt = 125\<rparr>]"
    by code_simp
  from eq t l c lt ex show ?thesis
    unfolding segs_def n_def by simp
qed

theorem fixed_grid_partition_witness:
  "(0::rat) < 125 \<and> (0::rat) < 60 \<and>
   (\<exists>segs. fixed_grid 60 125 = Inr segs \<and> tiles 0 125 segs \<and> endt (last segs) = 125 \<and>
      length segs = 3 \<and> covering segs 124 = 1 \<and> covering segs 125 = 0)"
proof -
  have a: "(0::rat) < 125" and b: "(0::rat) < 60" by simp_all
  from fixed_grid_partition [OF a b] obtain segs where
    s: "fixed_grid 60 125 = Inr segs" "tiles 0 125 segs" "endt (last segs) = 125"
       "\<forall>t. covering segs t = (if 0 \<le> t \<and> t < 125 then 1 else 0)"
    and e: "fixed_grid 60 125 =
           Inr [\<lparr>speaker = ''Speaker 1'', start = 0, endt = 60\<rparr>,
                \<lparr>speaker = ''Speaker 1'', start = 60, endt = 120\<rparr>,
                \<lparr>speaker = ''Speaker 1'', start = 120, endt = 125\<rparr>]"
    by blast
  from s(1) e have "length segs = 3" by auto
  moreover from s(4) have "covering segs 124 = 1" "covering segs 125 = 0" by simp_all
  ultimately show ?thesis using s a b by blast
qed

subsection \<open>The result loop and the end of a run\<close>


lemma handle_completion_outputs:
  "handle_completion segs ss c (t, a, r) = (t', a', r') \<Longrightarrow>
   displayed r' = displayed r \<and> saved_srt r' = saved_srt r \<and> error_box r' = error_box r"
  by (auto simp: handle_completion_def put_progress_def put_console_def Let_def
           split: sum.splits if_splits)

lemma result_loop_outputs:
  "result_loop segs ss cs (t, a, r) = ((t', a', r'), x) \<Longrightarrow>
   displayed r' = displayed r \<and> saved_srt r' = saved_srt r \<and> error_box r' = error_box r"
proof (induction cs arbitrary: t a r)
  case Nil
  then show ?case by simp
next
  case (Cons c cs)
  show ?case
  proof (cases "stop_seen c")
    case True
    with Cons.prems show ?thesis by simp
  next
    case False
    obtain t1 a1 r1 where h: "handle_completion segs ss c (t, a, r) = (t1, a1, r1)"
      by (cases "handle_completion segs ss c (t, a, r)") auto
    with False Cons.prems have "result_loop segs ss cs (t1, a1, r1) = ((t', a', r'), x)"
      by simp
    from Cons.IH [OF this] handle_completion_outputs [OF h] show ?thesis by simp
  qed
qed

lemma result_loop_stop:
  "\<exists>c\<in>set cs. stop_seen c \<Longrightarrow>
   snd (result_loop segs ss cs st) = Some (Exception stopped_by_user)"
proof (induction cs arbitrary: st)
  case Nil
  then show ?case by simp
next
  case (Cons c cs)
  show ?case
  proof (cases "stop_seen c")
    case True
    then show ?thesis by simp
  next
    case False
    with Cons.prems have "\<exists>c\<in>set cs. stop_seen c" by auto
    from Cons.IH [OF this] False show ?thesis by simp
  qed
qed

lemma result_loop_raises:
  "snd (result_loop segs ss cs st) = None \<or>
   snd (result_loop segs ss cs st) = Some (Exception stopped_by_user)"
proof (induction cs arbitrary: st)
  case Nil
  then show ?case by simp
next
  case (Cons c cs)
  from Cons.IH [of "handle_completion segs ss c st"] show ?case
    by (cases "stop_seen c") simp_all
qed

lemma plan_outputs:
  "plan e m d r = (r1, p) \<Longrightarrow>
   displayed r1 = displayed r \<and> saved_srt r1 = saved_srt r \<and> error_box r1 = error_box r"
  by (auto simp: plan_def put_progress_def put_console_def Let_def split: sum.splits if_splits)

lemma plan_stop_after_diarization:
  "speaker_id e \<Longrightarrow> diarization e = Inr tracks \<Longrightarrow> stop_after_diarization e \<Longrightarrow>
   snd (plan e m d r) = Inl (Exception stopped_by_user)"
  by (simp add: plan_def Let_def)

text \<open>The three ways in which the try block ends in a stop.\<close>

lemma body_stopped_raise:
  assumes "transcribe_body e m ss d initial_run = (r, Some (Exception stopped_by_user))"
  shows "displayed r = None \<and> saved_srt r = None \<and> error_box r = None"
proof -
  obtain r1 p where pl: "plan e m d initial_run = (r1, p)"
    by (cases "plan e m d initial_run") auto
  from plan_outputs [OF pl]
  have r1: "displayed r1 = None" "saved_srt r1 = None" "error_box r1 = None"
    by (simp_all add: initial_run_def)
  show ?thesis
  proof (cases p)
    case (Inl x)
    with pl assms r1 show ?thesis by (simp add: transcribe_body_def)
  next
    case (Inr segs)
    show ?thesis
    proof (cases "stop_before_transcription e")
      case True
      with pl Inr assms r1 show ?thesis by (simp add: transcribe_body_def)
    next
      case False
      define r2 where "r2 = put_progress
                       (20, ''Transcribing '' @ str_nat (length segs) @
                            '' segments with '' @ str_nat (num_threads e) @ '' threads...'') r1"
      obtain t a r3 x where l: "result_loop segs ss (completions e) ([], [], r2) = ((t, a, r3), x)"
        by (cases "result_loop segs ss (completions e) ([], [], r2)") auto
      from result_loop_outputs [OF l] r1
      have r3: "displayed r3 = None" "saved_srt r3 = None" "error_box r3 = None"
        by (simp_all add: r2_def put_progress_def)
      from assms pl Inr False l have "x \<noteq> None \<and> r = r3"
        by (auto simp: transcribe_body_def Let_def r2_def put_progress_def
                 split: option.splits if_splits)
      with r3 show ?thesis by simp
    qed
  qed
qed

lemma result_loop_no_stop:
  "\<forall>c\<in>set cs. \<not> stop_seen c \<Longrightarrow>
   result_loop segs ss cs st = (foldl (\<lambda>st c. handle_completion segs ss c st) st cs, None)"
  by (induction cs arbitrary: st) simp_all

lemma body_stop_after_pool:
  assumes pl: "snd (plan e m d initial_run) = Inr segs"
    and nb: "\<not> stop_before_transcription e"
    and ns: "\<forall>c\<in>set (completions e). \<not> stop_seen c"
    and sp: "stop_after_pool e"
    and body: "transcribe_body e m ss d initial_run = (r, x)"
  shows "x = None \<and> last (progress_queue r) = (0, ''Transcription stopped.'') \<and>
         displayed r = None \<and> saved_srt r = None \<and> error_box r = None"
proof -
  obtain r1 where pl': "plan e m d initial_run = (r1, Inr segs)"
    using pl by (cases "plan e m d initial_run") auto
  from plan_outputs [OF pl']
  have r1: "displayed r1 = None" "saved_srt r1 = None" "error_box r1 = None"
    by (simp_all add: initial_run_def)
  define r2 where "r2 = put_progress
                   (20, ''Transcribing '' @ str_nat (length segs) @
                        '' segments with '' @ str_nat (num_threads e) @ '' threads...'') r1"
  obtain t a r3 y where l: "result_loop segs ss (completions e) ([], [], r2) = ((t, a, r3), y)"
    by (cases "result_loop segs ss (completions e) ([], [], r2)") auto
  from result_loop_outputs [OF l] r1
  have r3: "displayed r3 = None" "saved_srt r3 = None" "error_box r3 = None"
    by (simp_all add: r2_def put_progress_def)
  from l result_loop_no_stop [OF ns, of segs ss "([], [], r2)"] have y: "y = None"
    by simp
  from body pl' nb sp l y
  have "x = None \<and> r = (put_progress (0, ''Transcription stopped.'') r3)\<lparr>stop_event_cleared := True\<rparr>"
    by (auto simp: transcribe_body_def Let_def r2_def)
  with r3 show ?thesis by (simp add: put_progress_def)
qed

lemma body_stop_raised:
  assumes "(speaker_id e \<and> (\<exists>tracks. diarization e = Inr tracks) \<and> stop_after_diarization e) \<or>
           ((\<exists>segs. snd (plan e m d initial_run) = Inr segs) \<and>
            (stop_before_transcription e \<or> (\<exists>c\<in>set (completions e). stop_seen c)))"
  shows "snd (transcribe_body e m ss d initial_run) = Some (Exception stopped_by_user)"
  using assms
proof (elim disjE conjE exE)
  fix tracks
  assume "speaker_id e" "diarization e = Inr tracks" "stop_after_diarization e"
  from plan_stop_after_diarization [OF this, of m d initial_run] show ?thesis
    by (cases "plan e m d initial_run") (simp add: transcribe_body_def)
next
  fix segs
  assume "snd (plan e m d initial_run) = Inr segs" "stop_before_transcription e"
  then show ?thesis
    by (cases "plan e m d initial_run") (simp add: transcribe_body_def)
next
  fix segs
  assume pl: "snd (plan e m d initial_run) = Inr segs" and ex: "\<exists>c\<in>set (completions e). stop_seen c"
  obtain r1 where pl': "plan e m d initial_run = (r1, Inr segs)"
    using pl by (cases "plan e m d initial_run") auto
  show ?thesis
  proof (cases "stop_before_transcription e")
    case True
    with pl' show ?thesis by (simp add: transcribe_body_def)
  next
    case False
    define r2 where "r2 = put_progress
                   (20, ''Transcribing '' @ str_nat (length segs) @
                        '' segments with '' @ str_nat (num_threads e) @ '' threads...'') r1"
    obtain t a r3 y where l: "result_loop segs ss (completions e) ([], [], r2) = ((t, a, r3), y)"
      by (cases "result_loop segs ss (completions e) ([], [], r2)") auto
    from result_loop_stop [OF ex, of segs ss "([], [], r2)"] l
    have "y = Some (Exception stopped_by_user)" by simp
    with pl' False l show ?thesis
      by (simp add: transcribe_body_def Let_def r2_def)
  qed
qed

text \<open>
  Claim C8. When the stop event is read as set at a checkpoint that the run reaches (after
  a diarization that returned, before the transcription starts, at an iteration of the
  loop over the completed tasks, or after the pool has finished), the last progress event
  of the run is \<open>(0, ''Transcription stopped.'')\<close>, nothing is displayed, no subtitle file
  is saved and no error box is shown.
\<close>

theorem cancellation_stops_run:
  assumes "(speaker_id e \<and> (\<exists>tracks. diarization e = Inr tracks) \<and> stop_after_diarization e) \<or>
           ((\<exists>segs. snd (plan e MAX_CHUNK_DURATION d initial_run) = Inr segs) \<and>
            (stop_before_transcription e \<or> (\<exists>c\<in>set (completions e). stop_seen c) \<or>
             stop_after_pool e))"
  shows "last (progress_queue (transcribe_file e ss d)) = (0, ''Transcription stopped.'') \<and>
         displayed (transcribe_file e ss d) = None \<and>
         saved_srt (transcribe_file e ss d) = None \<and>
         error_box (transcribe_file e ss d) = None"
proof -
  obtain r x where body: "transcribe_body e MAX_CHUNK_DURATION ss d initial_run = (r, x)"
    by (cases "transcribe_body e MAX_CHUNK_DURATION ss d initial_run") auto
  let ?raised = "(speaker_id e \<and> (\<exists>tracks. diarization e = Inr tracks) \<and> stop_after_diarization e) \<or>
           ((\<exists>segs. snd (plan e MAX_CHUNK_DURATION d initial_run) = Inr segs) \<and>
            (stop_before_transcription e \<or> (\<exists>c\<in>set (completions e). stop_seen c)))"
  show ?thesis
  proof (cases ?raised)
    case True
    from body_stop_raised [OF True, of ss] body
    have x: "x = Some (Exception stopped_by_user)" by simp
    from body_stopped_raise [OF body [unfolded x]]
    have "displayed r = None \<and> saved_srt r = None \<and> error_box r = None" .
    with body x show ?thesis
      by (simp add: transcribe_file_def put_progress_def)
  next
    case False
    with assms obtain segs where
      "snd (plan e MAX_CHUNK_DURATION d initial_run) = Inr segs"
      "\<not> stop_before_transcription e" "\<forall>c\<in>set (completions e). \<not> stop_seen c"
      "stop_after_pool e"
      by blast
    from body_stop_after_pool [OF this body] body show ?thesis
      by (simp add: transcribe_file_def)
  qed
qed

lemma in_completion_order_Cons:
  "in_completion_order segs ss (c # cs) =
   in_completion_order segs ss [c] @ in_completion_order segs ss cs"
  by (simp add: in_completion_order_def)

lemma handle_completion_acc:
  "\<exists>r'. handle_completion segs ss c (t, a, r) =
     (t @ transcript_lines (in_completion_order segs ss [c]),
      a @ in_completion_order segs ss [c], r')"
  by (auto simp: handle_completion_def in_completion_order_def transcript_lines_def Let_def
           split: sum.splits)

lemma foldl_handle_completion:
  "\<exists>r'. foldl (\<lambda>st c. handle_completion segs ss c st) (t, a, r) cs =
     (t @ transcript_lines (in_completion_order segs ss cs),
      a @ in_completion_order segs ss cs, r')"
proof (induction cs arbitrary: t a r)
  case Nil
  show ?case by (simp add: in_completion_order_def transcript_lines_def)
next
  case (Cons c cs)
  obtain r1 where h: "handle_completion segs ss c (t, a, r) =
     (t @ transcript_lines (in_completion_order segs ss [c]),
      a @ in_completion_order segs ss [c], r1)"
    using handle_completion_acc by blast
  from Cons.IH [of "t @ transcript_lines (in_completion_order segs ss [c])"
                   "a @ in_completion_order segs ss [c]" r1]
  show ?case
    by (simp add: h in_completion_order_Cons [of segs ss c cs] transcript_lines_def)
qed

lemma sorted_in_completion_order:
  assumes "sorted (map seg_index cs)" and "sorted (map start segs)"
    and "\<forall>c\<in>set cs. seg_index c < length segs"
  shows "sorted (map start (in_completion_order segs ss cs))"
  using assms
proof (induction cs)
  case Nil
  show ?case by (simp add: in_completion_order_def)
next
  case (Cons c cs)
  have le: "start (segs ! seg_index c) \<le> start (segs ! seg_index c')" if "c' \<in> set cs" for c'
  proof -
    from Cons.prems(1) that have "seg_index c \<le> seg_index c'" by auto
    moreover from Cons.prems(3) that have "seg_index c' < length segs" by auto
    ultimately have "map start segs ! seg_index c \<le> map start segs ! seg_index c'"
      using sorted_nth_mono [OF Cons.prems(2), of "seg_index c" "seg_index c'"] by simp
    with \<open>seg_index c \<le> seg_index c'\<close> \<open>seg_index c' < length segs\<close> show ?thesis
      by simp
  qed
  have starts: "\<forall>x\<in>set (in_completion_order segs ss cs). \<exists>c'\<in>set cs. start x = start (segs ! seg_index c') + of_int ss"
    by (auto simp: in_completion_order_def split: sum.splits if_splits)
  from Cons have IH: "sorted (map start (in_completion_order segs ss cs))" by simp
  show ?case
    unfolding in_completion_order_Cons [of segs ss c cs]
    using IH starts le
    by (fastforce simp: in_completion_order_def sorted_append split: sum.splits)
qed

lemma body_completed:
  assumes pl: "snd (plan e m d initial_run) = Inr segs"
    and nb: "\<not> stop_before_transcription e"
    and ns: "\<forall>c\<in>set (completions e). \<not> stop_seen c"
    and sp: "\<not> stop_after_pool e"
  shows "\<exists>r. transcribe_body e m ss d initial_run =
           (if srt e
            then (r\<lparr>displayed := Some (generate_srt_text_with_speakers
                                           (in_completion_order segs ss (completions e))),
                   saved_srt := Some (in_completion_order segs ss (completions e))\<rparr>, None)
            else (r\<lparr>displayed := Some (strip (transcript_lines
                                           (in_completion_order segs ss (completions e))))\<rparr>, None))
         \<and> saved_srt r = None"
proof -
  obtain r1 where pl': "plan e m d initial_run = (r1, Inr segs)"
    using pl by (cases "plan e m d initial_run") auto
  from plan_outputs [OF pl'] have r1: "saved_srt r1 = None"
    by (simp add: initial_run_def)
  define r2 where "r2 = put_progress
                   (20, ''Transcribing '' @ str_nat (length segs) @
                        '' segments with '' @ str_nat (num_threads e) @ '' threads...'') r1"
  obtain r3 where f: "foldl (\<lambda>st c. handle_completion segs ss c st) ([], [], r2) (completions e) =
     (transcript_lines (in_completion_order segs ss (completions e)),
      in_completion_order segs ss (completions e), r3)"
    using foldl_handle_completion [of segs ss "[]" "[]" r2 "completions e"] by auto
  with result_loop_no_stop [OF ns, of segs ss "([], [], r2)"]
  have l: "result_loop segs ss (completions e) ([], [], r2) =
     ((transcript_lines (in_completion_order segs ss (completions e)),
      in_completion_order segs ss (completions e), r3), None)"
    by simp
  from result_loop_outputs [OF l] r1 have r3: "saved_srt r3 = None"
    by (simp add: r2_def put_progress_def)
  let ?r = "put_progress (100, ''Transcription completed.'') r3"
  from pl' nb sp l have "transcribe_body e m ss d initial_run =
           (if srt e
            then (?r\<lparr>displayed := Some (generate_srt_text_with_speakers
                                           (in_completion_order segs ss (completions e))),
                   saved_srt := Some (in_completion_order segs ss (completions e))\<rparr>, None)
            else (?r\<lparr>displayed := Some (strip (transcript_lines
                                           (in_completion_order segs ss (completions e))))\<rparr>, None))"
    by (simp add: transcribe_body_def Let_def r2_def)
  moreover from r3 have "saved_srt ?r = None" by (simp add: put_progress_def)
  ultimately show ?thesis by blast
qed

text \<open>
  Claim C1, as amended. In a run that is planned and not stopped, the accumulator holds
  the segments that returned a non-empty text in the order in which their tasks
  completed: this list is what is saved and rendered as subtitles, or its lines are
  the transcript displayed. It is ordered by start time when the tasks complete in the
  order of their indices in a plan ordered by start time.
\<close>

theorem output_in_completion_order:
  assumes "snd (plan e MAX_CHUNK_DURATION d initial_run) = Inr segs"
    and "\<not> stop_before_transcription e"
    and "\<forall>c\<in>set (completions e). \<not> stop_seen c"
    and "\<not> stop_after_pool e"
  shows "(if srt e
          then saved_srt (transcribe_file e ss d) =
                 Some (in_completion_order segs ss (completions e)) \<and>
               displayed (transcribe_file e ss d) =
                 Some (generate_srt_text_with_speakers
                         (in_completion_order segs ss (completions e)))
          else saved_srt (transcribe_file e ss d) = None \<and>
               displayed (transcribe_file e ss d) =
                 Some (strip (transcript_lines (in_completion_order segs ss (completions e))))) \<and>
         (sorted (map seg_index (completions e)) \<and> sorted (map start segs) \<and>
          (\<forall>c\<in>set (completions e). seg_index c < length segs) \<longrightarrow>
          sorted (map start (in_completion_order segs ss (completions e))))"
proof -
  from body_completed [OF assms, of ss] obtain r where
    "transcribe_body e MAX_CHUNK_DURATION ss d initial_run =
           (if srt e
            then (r\<lparr>displayed := Some (generate_srt_text_with_speakers
                                           (in_completion_order segs ss (completions e))),
                   saved_srt := Some (in_completion_order segs ss (completions e))\<rparr>, None)
            else (r\<lparr>displayed := Some (strip (transcript_lines
                                           (in_completion_order segs ss (completions e))))\<rparr>, None))"
    and "saved_srt r = None"
    by blast
  then have "if srt e
          then saved_srt (transcribe_file e ss d) =
                 Some (in_completion_order segs ss (completions e)) \<and>
               displayed (transcribe_file e ss d) =
                 Some (generate_srt_text_with_speakers
                         (in_completion_order segs ss (completions e)))
          else saved_srt (transcribe_file e ss d) = None \<and>
               displayed (transcribe_file e ss d) =
                 Some (strip (transcript_lines (in_completion_order segs ss (completions e))))"
    by (simp add: transcribe_file_def)
  then show ?thesis
    using sorted_in_completion_order [of "completions e" segs ss] by blast
qed

text \<open>
  Claim C2, as amended. One iteration of the result loop puts one progress event, with
  the percentage \<open>int(20 + 80 * completed / total)\<close> where \<open>completed\<close> is the length of the
  accumulator: a non-empty text adds one entry (and one transcript line), an empty text
  or a raised exception adds none, so the count does not advance. For a non-empty plan
  the percentage is \<open>20 + (80 * completed) div total\<close>.
\<close>

theorem progress_after_completion:
  assumes "handle_completion segs ss c (t, a, r) = (t', a', r')"
  shows "a' = a @ in_completion_order segs ss [c] \<and>
         t' = t @ transcript_lines (in_completion_order segs ss [c]) \<and>
         length a' = length a +
           (case outcome c of Inr segment_text \<Rightarrow> if segment_text = [] then 0 else 1 | Inl x \<Rightarrow> 0) \<and>
         progress_queue r' = progress_queue r @
           [(py_int (20 + 80 * of_nat (length a') / of_nat (length segs)),
             ''Transcribed '' @ str_nat (length a') @ '' of '' @ str_nat (length segs) @
             '' segments...'')] \<and>
         (segs \<noteq> [] \<longrightarrow>
          py_int (20 + 80 * of_nat (length a') / of_nat (length segs)) =
          20 + (80 * int (length a')) div int (length segs))"
proof -
  from assms handle_completion_acc [of segs ss c t a r]
  have a: "a' = a @ in_completion_order segs ss [c]"
    and t: "t' = t @ transcript_lines (in_completion_order segs ss [c])"
    by auto
  have n: "length a' = length a +
           (case outcome c of Inr segment_text \<Rightarrow> if segment_text = [] then 0 else 1 | Inl x \<Rightarrow> 0)"
    unfolding a by (simp add: in_completion_order_def split: sum.splits)
  from assms have "a' = fst (snd (handle_completion segs ss c (t, a, r)))" by simp
  have p: "progress_queue r' = progress_queue r @
           [(py_int (20 + 80 * of_nat (length a') / of_nat (length segs)),
             ''Transcribed '' @ str_nat (length a') @ '' of '' @ str_nat (length segs) @
             '' segments...'')]"
    using assms
    by (auto simp: handle_completion_def put_progress_def put_console_def Let_def
             split: sum.splits if_splits)
  have d: "py_int (20 + 80 * of_nat k / of_nat n) = 20 + (80 * int k) div int n" if "0 < n" for k n :: nat
  proof -
    have "(20::rat) + 80 * of_nat k / of_nat n = of_int (20 * int n + 80 * int k) / of_int (int n)"
      using that by (simp add: field_simps)
    then have "\<lfloor>(20::rat) + 80 * of_nat k / of_nat n\<rfloor> = (20 * int n + 80 * int k) div int n"
      by (simp only: floor_divide_of_int_eq)
    also have "\<dots> = 20 + (80 * int k) div int n"
      using that by simp
    finally show ?thesis by (simp add: py_int_def)
  qed
  from a t n p d [of "length segs" "length a'"] show ?thesis by simp
qed

text \<open>A run of two segments whose tasks complete in the order 0, 1.\<close>

theorem output_in_completion_order_witness:
  "snd (plan \<lparr>speaker_id = False, diarization = Inr [], stop_after_diarization = False,
              stop_before_transcription = False, num_threads = 2,
              completions = [\<lparr>seg_index = 0, stop_seen = False, outcome = Inr ''first''\<rparr>,
                             \<lparr>seg_index = 1, stop_seen = False, outcome = Inr ''second''\<rparr>],
              stop_after_pool = False, srt = True\<rparr> MAX_CHUNK_DURATION 120 initial_run) =
     Inr [\<lparr>speaker = ''Speaker 1'', start = 0, endt = 60\<rparr>,
          \<lparr>speaker = ''Speaker 1'', start = 60, endt = 120\<rparr>] \<and>
   saved_srt (transcribe_file
     \<lparr>speaker_id = False, diarization = Inr [], stop_after_diarization = False,
      stop_before_transcription = False, num_threads = 2,
      completions = [\<lparr>seg_index = 0, stop_seen = False, outcome = Inr ''first''\<rparr>,
                     \<lparr>seg_index = 1, stop_seen = False, outcome = Inr ''second''\<rparr>],
      stop_after_pool = False, srt = True\<rparr> 0 120) =
     Some [\<lparr>speaker = ''Speaker 1'', start = 0, endt = 60, seg_text = ''first''\<rparr>,
           \<lparr>speaker = ''Speaker 1'', start = 60, endt = 120, seg_text = ''second''\<rparr>] \<and>
   sorted (map seg_index
     [\<lparr>seg_index = 0, stop_seen = False, outcome = Inr ''first''\<rparr>,
      \<lparr>seg_index = 1, stop_seen = False, outcome = Inr ''second''\<rparr>]) \<and>
   sorted (map start
     [\<lparr>speaker = ''Speaker 1'', start = 0, endt = 60\<rparr>,
      \<lparr>speaker = ''Speaker 1'', start = 60, endt = 120\<rparr>]) \<and>
   sorted (map start (in_completion_order
     [\<lparr>speaker = ''Speaker 1'', start = 0, endt = 60\<rparr>,
      \<lparr>speaker = ''Speaker 1'', start = 60, endt = 120\<rparr>] 0
     [\<lparr>seg_index = 0, stop_seen = False, outcome = Inr ''first''\<rparr>,
      \<lparr>seg_index = 1, stop_seen = False, outcome = Inr ''second''\<rparr>]))"
proof -
  let ?e = "\<lparr>speaker_id = False, diarization = Inr [], stop_after_diarization = False,
      stop_before_transcription = False, num_threads = 2,
      completions = [\<lparr>seg_index = 0, stop_seen = False, outcome = Inr ''first''\<rparr>,
                     \<lparr>seg_index = 1, stop_seen = False, outcome = Inr ''second''\<rparr>],
      stop_after_pool = False, srt = True\<rparr>"
  let ?segs = "[\<lparr>speaker = ''Speaker 1'', start = 0, endt = 60\<rparr>,
          \<lparr>speaker = ''Speaker 1'', start = 60, endt = 120\<rparr>]"
  have p: "snd (plan ?e MAX_CHUNK_DURATION 120 initial_run) = Inr ?segs"
    by code_simp
  have o: "in_completion_order ?segs 0 (completions ?e) =
     [\<lparr>speaker = ''Speaker 1'', start = 0, endt = 60, seg_text = ''first''\<rparr>,
      \<lparr>speaker = ''Speaker 1'', start = 60, endt = 120, seg_text = ''second''\<rparr>]"
    by code_simp
  from output_in_completion_order [of ?e 120 ?segs 0, OF p] o p show ?thesis
    by simp
qed

text \<open>
  Claim C1 as stated fails: with two segments whose tasks complete in the order 1, 0, the
  saved subtitle entries and the displayed transcript list the window \<open>[60, 120)\<close> before
  the window \<open>[0, 60)\<close>. The loop appends in completion order and has no index to key by.
\<close>

theorem completion_order_counterexample:
  "saved_srt (transcribe_file
     \<lparr>speaker_id = False, diarization = Inr [], stop_after_diarization = False,
      stop_before_transcription = False, num_threads = 2,
      completions = [\<lparr>seg_index = 1, stop_seen = False, outcome = Inr ''second''\<rparr>,
                     \<lparr>seg_index = 0, stop_seen = False, outcome = Inr ''first''\<rparr>],
      stop_after_pool = False, srt = True\<rparr> 0 120) =
     Some [\<lparr>speaker = ''Speaker 1'', start = 60, endt = 120, seg_text = ''second''\<rparr>,
           \<lparr>speaker = ''Speaker 1'', start = 0, endt = 60, seg_text = ''first''\<rparr>] \<and>
   displayed (transcribe_file
     \<lparr>speaker_id = False, diarization = Inr [], stop_after_diarization = False,
      stop_before_transcription = False, num_threads = 2,
      completions = [\<lparr>seg_index = 1, stop_seen = False, outcome = Inr ''second''\<rparr>,
                     \<lparr>seg_index = 0, stop_seen = False, outcome = Inr ''first''\<rparr>],
      stop_after_pool = False, srt = False\<rparr> 0 120) =
     Some (''Speaker 1: second'' @ newline @ ''Speaker 1: first'') \<and>
   \<not> sorted (map start
     [\<lparr>speaker = ''Speaker 1'', start = 60, endt = 120, seg_text = ''second''\<rparr>,
      \<lparr>speaker = ''Speaker 1'', start = 0, endt = 60, seg_text = ''first''\<rparr>])"
  by code_simp

text \<open>The second of three segments completes first, with a text: \<open>20 + 80 / 3\<close> is 46.\<close>

theorem progress_after_completion_witness:
  "handle_completion
     [\<lparr>speaker = ''Speaker 1'', start = 0, endt = 60\<rparr>,
      \<lparr>speaker = ''Speaker 1'', start = 60, endt = 120\<rparr>,
      \<lparr>speaker = ''Speaker 1'', start = 120, endt = 125\<rparr>] 0
     \<lparr>seg_index = 1, stop_seen = False, outcome = Inr ''hello''\<rparr> ([], [], initial_run) =
   (''Speaker 1: hello'' @ newline,
    [\<lparr>speaker = ''Speaker 1'', start = 60, endt = 120, seg_text = ''hello''\<rparr>],
    initial_run\<lparr>progress_queue := [(46, ''Transcribed 1 of 3 segments...'')]\<rparr>) \<and>
   py_int (20 + 80 * of_nat 1 / of_nat 3) = 20 + (80 * 1) div 3"
proof -
  let ?segs = "[\<lparr>speaker = ''Speaker 1'', start = 0, endt = 60\<rparr>,
      \<lparr>speaker = ''Speaker 1'', start = 60, endt = 120\<rparr>,
      \<lparr>speaker = ''Speaker 1'', start = 120, endt = 125\<rparr>]"
  have h: "handle_completion ?segs 0
     \<lparr>seg_index = 1, stop_seen = False, outcome = Inr ''hello''\<rparr> ([], [], initial_run) =
   (''Speaker 1: hello'' @ newline,
    [\<lparr>speaker = ''Speaker 1'', start = 60, endt = 120, seg_text = ''hello''\<rparr>],
    initial_run\<lparr>progress_queue := [(46, ''Transcribed 1 of 3 segments...'')]\<rparr>)"
    by code_simp
  from progress_after_completion [OF h] h show ?thesis
    by simp
qed

text \<open>
  Claim C2 as stated fails: after the first of two tasks completes with an empty text the
  event is \<open>20\<close>, not \<open>10 + 80 * 1 / 2 = 50\<close>; after it completes with a text the event is
  \<open>60\<close>.
\<close>

theorem progress_formula_counterexample:
  "progress_queue (snd (snd (handle_completion
     [\<lparr>speaker = ''Speaker 1'', start = 0, endt = 60\<rparr>,
      \<lparr>speaker = ''Speaker 1'', start = 60, endt = 120\<rparr>] 0
     \<lparr>seg_index = 0, stop_seen = False, outcome = Inr []\<rparr> ([], [], initial_run)))) =
     [(20, ''Transcribed 0 of 2 segments...'')] \<and>
   py_int (10 + 80 * 1 / 2) = 50 \<and>
   progress_queue (snd (snd (handle_completion
     [\<lparr>speaker = ''Speaker 1'', start = 0, endt = 60\<rparr>,
      \<lparr>speaker = ''Speaker 1'', start = 60, endt = 120\<rparr>] 0
     \<lparr>seg_index = 0, stop_seen = False, outcome = Inr ''hello''\<rparr> ([], [], initial_run)))) =
     [(60, ''Transcribed 1 of 2 segments...'')]"
  by code_simp

text \<open>A run of two segments stopped at the second completed task.\<close>

theorem cancellation_stops_run_witness:
  "snd (plan \<lparr>speaker_id = False, diarization = Inr [], stop_after_diarization = False,
              stop_before_transcription = False, num_threads = 2,
              completions = [\<lparr>seg_index = 1, stop_seen = False, outcome = Inr ''second''\<rparr>,
                             \<lparr>seg_index = 0, stop_seen = True, outcome = Inr ''first''\<rparr>],
              stop_after_pool = True, srt = True\<rparr> MAX_CHUNK_DURATION 120 initial_run) =
     Inr [\<lparr>speaker = ''Speaker 1'', start = 0, endt = 60\<rparr>,
          \<lparr>speaker = ''Speaker 1'', start = 60, endt = 120\<rparr>] \<and>
   progress_queue (transcribe_file
     \<lparr>speaker_id = False, diarization = Inr [], stop_after_diarization = False,
      stop_before_transcription = False, num_threads = 2,
      completions = [\<lparr>seg_index = 1, stop_seen = False, outcome = Inr ''second''\<rparr>,
                     \<lparr>seg_index = 0, stop_seen = True, outcome = Inr ''first''\<rparr>],
      stop_after_pool = True, srt = True\<rparr> 0 120) =
     [(10, ''Dividing audio into chunks...''),
      (20, ''Transcribing 2 segments with 2 threads...''),
      (60, ''Transcribed 1 of 2 segments...''),
      (0, ''Transcription stopped.'')] \<and>
   displayed (transcribe_file
     \<lparr>speaker_id = False, diarization = Inr [], stop_after_diarization = False,
      stop_before_transcription = False, num_threads = 2,
      completions = [\<lparr>seg_index = 1, stop_seen = False, outcome = Inr ''second''\<rparr>,
                     \<lparr>seg_index = 0, stop_seen = True, outcome = Inr ''first''\<rparr>],
      stop_after_pool = True, srt = True\<rparr> 0 120) = None"
proof -
  let ?e = "\<lparr>speaker_id = False, diarization = Inr [], stop_after_diarization = False,
      stop_before_transcription = False, num_threads = 2,
      completions = [\<lparr>seg_index = 1, stop_seen = False, outcome = Inr ''second''\<rparr>,
                     \<lparr>seg_index = 0, stop_seen = True, outcome = Inr ''first''\<rparr>],
      stop_after_pool = True, srt = True\<rparr>"
  have p: "snd (plan ?e MAX_CHUNK_DURATION 120 initial_run) =
     Inr [\<lparr>speaker = ''Speaker 1'', start = 0, endt = 60\<rparr>,
          \<lparr>speaker = ''Speaker 1'', start = 60, endt = 120\<rparr>]"
    by code_simp
  have q: "progress_queue (transcribe_file ?e 0 120) =
     [(10, ''Dividing audio into chunks...''),
      (20, ''Transcribing 2 segments with 2 threads...''),
      (60, ''Transcribed 1 of 2 segments...''),
      (0, ''Transcription stopped.'')]"
    by code_simp
  have "(speaker_id ?e \<and> (\<exists>tracks. diarization ?e = Inr tracks) \<and> stop_after_diarization ?e) \<or>
           ((\<exists>segs. snd (plan ?e MAX_CHUNK_DURATION 120 initial_run) = Inr segs) \<and>
            (stop_before_transcription ?e \<or> (\<exists>c\<in>set (completions ?e). stop_seen c) \<or>
             stop_after_pool ?e))"
    using p by simp
  from cancellation_stops_run [OF this, of 0] p q show ?thesis
    by simp
qed

subsection \<open>Mutual exclusion of the model calls\<close>

lemma filter_update_length:
  "i < length xs \<Longrightarrow>
   length (filter P (xs[i := y])) + (if P (xs ! i) then 1 else 0) =
   length (filter P xs) + (if P y then 1 else 0)"
proof (induction xs arbitrary: i)
  case Nil
  then show ?case by simp
next
  case (Cons x xs)
  then show ?case by (cases i) auto
qed

lemma local_next_not_Infer: "p \<in> set (local_next q) \<Longrightarrow> p \<noteq> Infer \<and> q \<noteq> Infer"
  by (cases q) auto

lemma step_keeps_lock_invariant:
  assumes "step K s s'" and "inferring s \<le> 1" and "locked s = (inferring s = 1)"
  shows "inferring s' \<le> 1 \<and> locked s' = (inferring s' = 1)"
  using assms
proof (cases rule: step.cases)
  case (start_task i)
  with filter_update_length [of i "pcs s" "\<lambda>p. p = Infer" Entry]
  have "inferring s' = inferring s" by (simp add: inferring_def)
  with assms start_task show ?thesis by simp
next
  case (local_step i p)
  from local_next_not_Infer [OF local_step(3)]
  have "p \<noteq> Infer" "pcs s ! i \<noteq> Infer" by simp_all
  with local_step filter_update_length [of i "pcs s" "\<lambda>p. p = Infer" p]
  have "inferring s' = inferring s" by (simp add: inferring_def)
  with assms local_step show ?thesis by simp
next
  case (acquire_lock i)
  with assms have "inferring s = 0" by simp
  with acquire_lock filter_update_length [of i "pcs s" "\<lambda>p. p = Infer" Infer]
  have "inferring s' = 1" by (simp add: inferring_def)
  with acquire_lock show ?thesis by simp
next
  case (release_lock i)
  with filter_update_length [of i "pcs s" "\<lambda>p. p = Infer" Cleanup]
  have "inferring s' + 1 = inferring s" by (simp add: inferring_def)
  with assms release_lock show ?thesis by simp
qed

text \<open>
  Claim C9. In every state that a pool of \<open>K\<close> workers can reach from \<open>N\<close> submitted
  segments, at most one task is inside the call of the transcription model, and the
  model lock is held exactly when one is: every model call runs under the lock, and no
  two model calls run at the same instant. Extraction and export are local steps of the
  tasks and interleave freely.
\<close>

theorem model_lock_mutual_exclusion:
  assumes "reachable K N s"
  shows "inferring s \<le> 1 \<and> locked s = (inferring s = 1)"
  using assms
proof (induction rule: reachable.induct)
  case submitted
  show ?case by (simp add: inferring_def)
next
  case (stepped s s')
  then show ?case using step_keeps_lock_invariant by blast
qed

text \<open>A pool of one worker and two segments, with the first task inside the model call.\<close>

lemma reachable_example:
  "reachable 1 2 \<lparr>pcs = [Infer, Queued], locked = True\<rparr>"
proof -
  have r0: "reachable 1 2 \<lparr>pcs = [Queued, Queued], locked = False\<rparr>"
    using submitted [of 1 2] by (simp add: numeral_2_eq_2)
  have "step 1 \<lparr>pcs = [Queued, Queued], locked = False\<rparr> \<lparr>pcs = [Entry, Queued], locked = False\<rparr>"
    using start_task [of 0 "\<lparr>pcs = [Queued, Queued], locked = False\<rparr>" 1]
    by (simp add: running_def)
  with r0 have r1: "reachable 1 2 \<lparr>pcs = [Entry, Queued], locked = False\<rparr>"
    by (rule stepped)
  have "step 1 \<lparr>pcs = [Entry, Queued], locked = False\<rparr> \<lparr>pcs = [Extract, Queued], locked = False\<rparr>"
    using local_step [of 0 "\<lparr>pcs = [Entry, Queued], locked = False\<rparr>" Extract 1] by simp
  with r1 have r2: "reachable 1 2 \<lparr>pcs = [Extract, Queued], locked = False\<rparr>"
    by (rule stepped)
  have "step 1 \<lparr>pcs = [Extract, Queued], locked = False\<rparr> \<lparr>pcs = [Export, Queued], locked = False\<rparr>"
    using local_step [of 0 "\<lparr>pcs = [Extract, Queued], locked = False\<rparr>" Export 1] by simp
  with r2 have r3: "reachable 1 2 \<lparr>pcs = [Export, Queued], locked = False\<rparr>"
    by (rule stepped)
  have "step 1 \<lparr>pcs = [Export, Queued], locked = False\<rparr> \<lparr>pcs = [Acquire, Queued], locked = False\<rparr>"
    using local_step [of 0 "\<lparr>pcs = [Export, Queued], locked = False\<rparr>" Acquire 1] by simp
  with r3 have r4: "reachable 1 2 \<lparr>pcs = [Acquire, Queued], locked = False\<rparr>"
    by (rule stepped)
  have "step 1 \<lparr>pcs = [Acquire, Queued], locked = False\<rparr> \<lparr>pcs = [Infer, Queued], locked = True\<rparr>"
    using acquire_lock [of 0 "\<lparr>pcs = [Acquire, Queued], locked = False\<rparr>" 1] by simp
  with r4 show ?thesis
    by (rule stepped)
qed

theorem model_lock_mutual_exclusion_witness:
  "reachable 1 2 \<lparr>pcs = [Infer, Queued], locked = True\<rparr> \<and>
   inferring \<lparr>pcs = [Infer, Queued], locked = True\<rparr> = 1"
  using model_lock_mutual_exclusion [OF reachable_example] reachable_example by simp

subsection \<open>The temporary file of a segment\<close>

text \<open>
  Claim C10. A call of \<^verbatim>\<open>transcribe_segment\<close> that passes the entry check and slices the
  audio creates its temporary file. When the export succeeds the file is gone when the
  call returns, whether the model returned a text or raised (then the call returns the
  empty string); when the export fails the call returns the empty string and the file is
  still there.
\<close>

theorem temp_file_lifecycle:
  assumes "\<not> stop_at_entry e" and "extraction_error e = None"
  shows "(case transcribe_segment e seg w of (w', res) \<Rightarrow>
           if export_error e = None
           then seg_file_name e \<notin> files w' \<and> files w' = files w - {seg_file_name e} \<and>
                last (console w') = Deleted (seg_file_name e) \<and>
                res = Inr (case inference e of
                             Inr result \<Rightarrow> strip (case result of None \<Rightarrow> '''' | Some t \<Rightarrow> t)
                           | Inl x \<Rightarrow> '''')
           else seg_file_name e \<in> files w' \<and> files w' = insert (seg_file_name e) (files w) \<and>
                res = Inr '''')"
  using assms
  by (auto simp: transcribe_segment_def log_def Let_def split: option.splits sum.splits)

theorem temp_file_lifecycle_witness:
  "''/tmp/seg0.wav'' \<in> files (fst (transcribe_segment
       \<lparr>stop_at_entry = False, extraction_error = None, seg_file_name = ''/tmp/seg0.wav'',
        export_error = Some (Exception ''disk full''), inference = Inr (Some ''hello'')\<rparr>
       \<lparr>speaker = ''Speaker 1'', start = 0, endt = 60\<rparr> \<lparr>files = {}, console = []\<rparr>)) \<and>
   snd (transcribe_segment
       \<lparr>stop_at_entry = False, extraction_error = None, seg_file_name = ''/tmp/seg0.wav'',
        export_error = Some (Exception ''disk full''), inference = Inr (Some ''hello'')\<rparr>
       \<lparr>speaker = ''Speaker 1'', start = 0, endt = 60\<rparr> \<lparr>files = {}, console = []\<rparr>) = Inr [] \<and>
   ''/tmp/seg0.wav'' \<notin> files (fst (transcribe_segment
       \<lparr>stop_at_entry = False, extraction_error = None, seg_file_name = ''/tmp/seg0.wav'',
        export_error = None, inference = Inl (Exception ''out of memory'')\<rparr>
       \<lparr>speaker = ''Speaker 1'', start = 0, endt = 60\<rparr> \<lparr>files = {}, console = []\<rparr>)) \<and>
   snd (transcribe_segment
       \<lparr>stop_at_entry = False, extraction_error = None, seg_file_name = ''/tmp/seg0.wav'',
        export_error = None, inference = Inl (Exception ''out of memory'')\<rparr>
       \<lparr>speaker = ''Speaker 1'', start = 0, endt = 60\<rparr> \<lparr>files = {}, console = []\<rparr>) = Inr []"
  using temp_file_lifecycle [where e =
       "\<lparr>stop_at_entry = False, extraction_error = None, seg_file_name = ''/tmp/seg0.wav'',
        export_error = Some (Exception ''disk full''), inference = Inr (Some ''hello'')\<rparr>"
       and seg = "\<lparr>speaker = ''Speaker 1'', start = 0, endt = 60\<rparr>"
       and w = "\<lparr>files = {}, console = []\<rparr>"]
     temp_file_lifecycle [where e =
       "\<lparr>stop_at_entry = False, extraction_error = None, seg_file_name = ''/tmp/seg0.wav'',
        export_error = None, inference = Inl (Exception ''out of memory'')\<rparr>"
       and seg = "\<lparr>speaker = ''Speaker 1'', start = 0, endt = 60\<rparr>"
       and w = "\<lparr>files = {}, console = []\<rparr>"]
  by (simp add: case_prod_beta)

subsection \<open>Diarization-driven merging\<close>

lemma segment_copy [simp]:
  "\<lparr>speaker = speaker s, start = start s, endt = endt s\<rparr> = (s :: segment)"
  by (cases s) simp


lemma parse_tracks_endt:
  "map endt (parse_tracks sm n acc ts) = map endt acc @ map turn_end ts"
  by (induction ts arbitrary: sm n acc) (simp_all split: option.splits)










text \<open>
  Claim C4 at a start-ordered input with a nested turn: the turn \<open>[10, 20)\<close> is merged into
  the chunk opened by the turn \<open>[0, 50)\<close> and the chunk's end is set to 20, so the only
  chunk is \<open>[0, 20)\<close> and the instant 30 of the first turn is in no chunk.
\<close>

theorem nested_turn_not_covered:
  "diarization_plan 60 [\<lparr>raw_speaker = ''SPEAKER_00'', turn_start = 0, turn_end = 50\<rparr>,
                        \<lparr>raw_speaker = ''SPEAKER_01'', turn_start = 10, turn_end = 20\<rparr>] =
     Inr [\<lparr>speaker = ''Speaker 1'', start = 0, endt = 20\<rparr>] \<and>
   covering [\<lparr>speaker = ''Speaker 1'', start = 0, endt = 20\<rparr>] 30 = 0"
  by code_simp


text \<open>
  What does hold of the merging loop: a chunk is one of the turns or its float duration
  is at most the chunk duration, and when the turns are ordered by end as well as by
  start every turn lies inside a chunk.
\<close>

lemma combine_loop_acc: "set acc \<subseteq> set (combine_loop m acc cur rest)"
proof (induction rest arbitrary: acc cur)
  case Nil
  show ?case by auto
next
  case (Cons seg rest)
  have "set acc \<subseteq> set (combine_loop m acc (cur\<lparr>endt := endt seg\<rparr>) rest)"
    by (rule Cons.IH)
  moreover have "set (acc @ [cur]) \<subseteq> set (combine_loop m (acc @ [cur])
      \<lparr>speaker = speaker seg, start = start seg, endt = endt seg\<rparr> rest)"
    by (rule Cons.IH)
  ultimately show ?case by (auto simp: Let_def)
qed

lemma combine_loop_cap:
  assumes "\<forall>c\<in>set acc. c \<in> S \<or> round_double (endt c - start c) \<le> m"
    and "cur \<in> S \<or> round_double (endt cur - start cur) \<le> m"
    and "set rest \<subseteq> S"
  shows "\<forall>c\<in>set (combine_loop m acc cur rest). c \<in> S \<or> round_double (endt c - start c) \<le> m"
  using assms
proof (induction rest arbitrary: acc cur)
  case Nil
  then show ?case by auto
next
  case (Cons seg rest)
  show ?case
  proof (cases "round_double (endt seg - start cur) \<le> m")
    case True
    have "\<forall>c\<in>set (combine_loop m acc (cur\<lparr>endt := endt seg\<rparr>) rest).
            c \<in> S \<or> round_double (endt c - start c) \<le> m"
      using Cons.prems True by (intro Cons.IH) auto
    with True show ?thesis by simp
  next
    case False
    have "\<forall>c\<in>set (combine_loop m (acc @ [cur])
              \<lparr>speaker = speaker seg, start = start seg, endt = endt seg\<rparr> rest).
            c \<in> S \<or> round_double (endt c - start c) \<le> m"
      using Cons.prems by (intro Cons.IH) auto
    with False show ?thesis by simp
  qed
qed

lemma combine_loop_covers:
  assumes "sorted (map start (cur # rest))" and "sorted (map endt (cur # rest))"
    and "t \<in> set (cur # rest)"
  shows "\<exists>c\<in>set (combine_loop m acc cur rest). start c \<le> start t \<and> endt t \<le> endt c"
  using assms
proof (induction rest arbitrary: acc cur t)
  case Nil
  then show ?case by auto
next
  case (Cons seg rest)
  from Cons.prems have le: "start cur \<le> start seg" "endt cur \<le> endt seg"
    and rs: "sorted (map start (seg # rest))" "sorted (map endt (seg # rest))"
    by auto
  show ?case
  proof (cases "round_double (endt seg - start cur) \<le> m")
    case True
    let ?cur = "cur\<lparr>endt := endt seg\<rparr>"
    have s: "sorted (map start (?cur # rest))" "sorted (map endt (?cur # rest))"
      using Cons.prems(1) rs by auto
    have "\<exists>c\<in>set (combine_loop m acc ?cur rest). start c \<le> start t \<and> endt t \<le> endt c"
    proof (cases "t \<in> set rest")
      case True
      then have "t \<in> set (?cur # rest)" by simp
      from Cons.IH [OF s this] show ?thesis .
    next
      case False
      with Cons.prems(3) have t: "t = cur \<or> t = seg" by auto
      have "?cur \<in> set (?cur # rest)" by simp
      from Cons.IH [OF s this, of acc] obtain c where
        c: "c \<in> set (combine_loop m acc ?cur rest)" and "start c \<le> start cur" "endt seg \<le> endt c"
        by auto
      with t le have "start c \<le> start t \<and> endt t \<le> endt c" by auto
      with c show ?thesis by blast
    qed
    with True show ?thesis by simp
  next
    case False
    let ?new = "\<lparr>speaker = speaker seg, start = start seg, endt = endt seg\<rparr>"
    have "\<exists>c\<in>set (combine_loop m (acc @ [cur]) ?new rest).
            start c \<le> start t \<and> endt t \<le> endt c"
    proof (cases "t = cur")
      case True
      have "cur \<in> set (combine_loop m (acc @ [cur]) ?new rest)"
        using combine_loop_acc [of "acc @ [cur]" m ?new rest] by auto
      with True show ?thesis by auto
    next
      case False
      with Cons.prems(3) have "t \<in> set (?new # rest)" by auto
      from Cons.IH [OF _ _ this, of "acc @ [cur]"] rs show ?thesis by simp
    qed
    with False show ?thesis by simp
  qed
qed

lemma combine_segments_cap:
  assumes "combine_segments m segs = Inr chunks" and "c \<in> set chunks"
  shows "c \<in> set segs \<or> round_double (endt c - start c) \<le> m"
proof -
  from assms(1) obtain first rest where fr: "segs = first # rest"
    and ch: "chunks = combine_loop m [] first rest"
    by (cases segs) (auto simp: combine_segments_def)
  have "\<forall>c\<in>set (combine_loop m [] first rest). c \<in> set segs \<or> round_double (endt c - start c) \<le> m"
    by (rule combine_loop_cap) (auto simp: fr)
  with ch assms(2) show ?thesis by blast
qed

lemma combine_segments_covers:
  assumes "combine_segments m segs = Inr chunks"
    and "sorted (map start segs)" and "sorted (map endt segs)" and "t \<in> set segs"
  shows "\<exists>c\<in>set chunks. start c \<le> start t \<and> endt t \<le> endt c"
proof -
  from assms(1) obtain first rest where fr: "segs = first # rest"
    and ch: "chunks = combine_loop m [] first rest"
    by (cases segs) (auto simp: combine_segments_def)
  from combine_loop_covers [of first rest t m "[]"] assms(2-4) show ?thesis
    unfolding fr ch by blast
qed

subsection \<open>Subtitles: the file and the displayed string\<close>





text \<open>The millisecond format of a timestamp: 65.25 seconds.\<close>

lemma format_timestamp_example: "format_timestamp (261 / 4) = ''00:01:05,250''"
  by code_simp


subsection \<open>The strings that parse_time accepts\<close>




lemma in_0_5_is_digit: "in_0_5 x \<Longrightarrow> is_digit x"
  by (simp add: in_0_5_def is_digit_def)













text \<open>With \<^verbatim>\<open>$\<close>, one newline after the seconds is accepted too. The callers strip the
  string before they pass it.\<close>

lemma parse_time_trailing_newline:
  "parse_time (''01:02:03'' @ newline) = Inr 3723"
  by code_simp

end
